theory Spec2Isabelle
  imports Complex_Main "HOL-Library.AList" "HOL-Library.Sublist"
begin

section \<open>JavaScript strings\<close>

text \<open>
  A JavaScript string is a sequence of UTF-16 code units. The embedding uses \<^typ>\<open>string\<close>
  and reads a \<^typ>\<open>char\<close> as the code unit of the same number, so it covers the strings
  whose code units lie in U+0000..U+00FF. On these, \<^verbatim>\<open>toLowerCase\<close> maps A..Z and
  the upper-case letters U+00C0..U+00DE (without the multiplication sign U+00D7) to the
  code unit 32 above, the class \<^verbatim>\<open>\w\<close> is \<^verbatim>\<open>[A-Za-z0-9_]\<close>, and the class
  \<^verbatim>\<open>\s\<close> (which is also what \<^verbatim>\<open>trim\<close> removes) is TAB, LF, VT, FF, CR, SPACE and
  NO-BREAK SPACE.
\<close>

definition isUpper :: "char \<Rightarrow> bool" where
  "isUpper c =
     (let n = (of_char c :: nat)
      in (65 \<le> n \<and> n \<le> 90) \<or> (192 \<le> n \<and> n \<le> 222 \<and> n \<noteq> 215))"

text \<open>Adding 32 to an upper-case code unit is setting its bit 5, which is clear there.\<close>

definition toLowerCase_char :: "char \<Rightarrow> char" where
  "toLowerCase_char c =
     (if isUpper c
      then Char (digit0 c) (digit1 c) (digit2 c) (digit3 c) (digit4 c) True (digit6 c) (digit7 c)
      else c)"

definition toLowerCase :: "string \<Rightarrow> string" where
  "toLowerCase s = map toLowerCase_char s"

definition isWordChar :: "char \<Rightarrow> bool" where
  "isWordChar c =
     (let n = (of_char c :: nat)
      in (48 \<le> n \<and> n \<le> 57) \<or> (65 \<le> n \<and> n \<le> 90) \<or> n = 95 \<or> (97 \<le> n \<and> n \<le> 122))"

definition isSpaceChar :: "char \<Rightarrow> bool" where
  "isSpaceChar c = (let n = (of_char c :: nat) in (9 \<le> n \<and> n \<le> 13) \<or> n = 32 \<or> n = 160)"

text \<open>\<^verbatim>\<open>s.replace(/[^\w\s]/g, "")\<close>\<close>

definition stripNonWord :: "string \<Rightarrow> string" where
  "stripNonWord s = filter (\<lambda>c. isWordChar c \<or> isSpaceChar c) s"

text \<open>\<^verbatim>\<open>s.trim()\<close>\<close>

definition trim :: "string \<Rightarrow> string" where
  "trim s = rev (dropWhile isSpaceChar (rev (dropWhile isSpaceChar s)))"

text \<open>
  \<^verbatim>\<open>s.split(/\s+/)\<close>: the pieces between the maximal runs of white space, an empty piece
  before a leading run and after a trailing one, and the single piece \<open>''''\<close> for the empty
  string. \<open>cur\<close> is the piece being read.
\<close>

function split_go :: "string \<Rightarrow> string \<Rightarrow> string list" where
  "split_go cur [] = [cur]"
| "split_go cur (c # cs) =
     (if isSpaceChar c then cur # split_go [] (dropWhile isSpaceChar cs)
      else split_go (cur @ [c]) cs)"
  by pat_completeness auto
termination
  by (relation "measure (\<lambda>(cur, s). length s)") (auto simp: length_dropWhile_le less_Suc_eq_le)

definition split_ws :: "string \<Rightarrow> string list" where
  "split_ws s = split_go [] s"

text \<open>\<^verbatim>\<open>s.includes(t)\<close>: \<open>t\<close> occurs in \<open>s\<close> as a contiguous substring.\<close>

fun str_includes :: "string \<Rightarrow> string \<Rightarrow> bool" where
  "str_includes [] t = (t = [])"
| "str_includes (c # s) t = (prefix t (c # s) \<or> str_includes s t)"

text \<open>\<^verbatim>\<open>s.startsWith(p)\<close>, \<^verbatim>\<open>s.endsWith(p)\<close>, \<^verbatim>\<open>s.slice(n)\<close> and \<^verbatim>\<open>s.slice(0, -n)\<close>.\<close>

definition startsWith :: "string \<Rightarrow> string \<Rightarrow> bool" where
  "startsWith s p = prefix p s"

definition endsWith :: "string \<Rightarrow> string \<Rightarrow> bool" where
  "endsWith s p = suffix p s"

definition slice_from :: "string \<Rightarrow> nat \<Rightarrow> string" where
  "slice_from s n = drop n s"

definition slice_to_last :: "string \<Rightarrow> nat \<Rightarrow> string" where
  "slice_to_last s n = take (length s - n) s"

section \<open>The manifest (src/lib/manifest.ts)\<close>

text \<open>
  Numbers are IEEE doubles in the source; the embedding takes them as exact reals.
  The field \<^verbatim>\<open>end\<close> of a word and the field \<^verbatim>\<open>text\<close> of a transcript are written
  \<open>end_w\<close> and \<open>text_t\<close> here. A record field is a constant, so a variable of the source
  that has the name of a field is renamed: \<open>wds\<close> for \<^verbatim>\<open>words\<close>, \<open>quoteStr\<close> for
  \<^verbatim>\<open>quote\<close>, \<open>segs\<close> for \<^verbatim>\<open>segments\<close>.
\<close>

record Word =
  word :: string
  start :: real
  end_w :: real

record Transcript =
  text_t :: string
  words :: "Word list"

record SegmentMetadata =
  subject :: string
  description :: string
  segmentIndex :: real
  duration :: real
  startTime :: real
  endTime :: real

record Segment =
  audioFile :: string
  metadata :: SegmentMetadata
  transcript :: Transcript

record Session =
  sessionId :: string
  totalDuration :: real
  totalWords :: real
  segments :: "Segment list"

record Manifest =
  createdAt :: string
  totalSessions :: real
  sessions :: "Session list"

section \<open>The search handler\<close>

record SearchResult =
  audioFile :: string
  timestamp :: real
  subject :: string
  quote :: string

record QuoteResult =
  found :: bool
  timestamp :: real

subsection \<open>findQuoteInSegment\<close>

text \<open>
  \<^verbatim>\<open>x.toLowerCase().replace(/[^\w\s]/g, "").trim()\<close>, which the source applies to the quote
  and to every transcript word.
\<close>

definition clean :: "string \<Rightarrow> string" where
  "clean s = trim (stripNonWord (toLowerCase s))"

definition quoteWordsOf :: "string \<Rightarrow> string list" where
  "quoteWordsOf quoteStr = filter (\<lambda>w. length w > 0) (split_ws (clean quoteStr))"

text \<open>
  The inner loop \<^verbatim>\<open>for (let j = 1; j < wordsToCheck; j++)\<close>, as a function of the loop
  variable \<open>j\<close> and of \<open>matchCount\<close>.
\<close>

function matchCountLoop :: "Word list \<Rightarrow> string list \<Rightarrow> nat \<Rightarrow> nat \<Rightarrow> nat \<Rightarrow> nat \<Rightarrow> nat" where
  "matchCountLoop wds quoteWords i wordsToCheck j matchCount =
     (if j < wordsToCheck
      then matchCountLoop wds quoteWords i wordsToCheck (j + 1)
             (if i + j < length wds
              then (let nextWord = clean (word (wds ! (i + j)))
                    in if nextWord = quoteWords ! j \<or> str_includes nextWord (quoteWords ! j)
                          \<or> str_includes (quoteWords ! j) nextWord
                       then matchCount + 1 else matchCount)
              else matchCount)
      else matchCount)"
  by pat_completeness auto
termination
  by (relation "measure (\<lambda>(wds, quoteWords, i, wordsToCheck, j, matchCount). wordsToCheck - j)") auto

declare matchCountLoop.simps [simp del]

text \<open>
  The body of the outer loop at index \<open>i\<close>, up to the test that guards its \<^verbatim>\<open>return\<close>:
  the word at \<open>i\<close> is a potential match and the look-ahead reaches the threshold.
  \<open>matchCount\<close> and \<open>wordsToCheck\<close> are at most 5, where the double product
  \<^verbatim>\<open>wordsToCheck * 0.6\<close> and the exact one compare alike with every integer.
\<close>

definition candidateAccepted :: "Word list \<Rightarrow> string list \<Rightarrow> nat \<Rightarrow> bool" where
  "candidateAccepted wds quoteWords i =
     (let firstQuoteWord = quoteWords ! 0;
          cleanWord = clean (word (wds ! i))
      in (cleanWord = firstQuoteWord \<or> str_includes cleanWord firstQuoteWord) \<and>
         (let wordsToCheck = min (length quoteWords) 5;
              matchCount = matchCountLoop wds quoteWords i wordsToCheck 1 1
          in real matchCount \<ge> real wordsToCheck * 0.6))"

text \<open>The outer loop \<^verbatim>\<open>for (let i = 0; i < words.length; i++)\<close> from index \<open>i\<close> on.\<close>

function scanWords :: "Segment \<Rightarrow> string list \<Rightarrow> nat \<Rightarrow> QuoteResult" where
  "scanWords segment quoteWords i =
     (if i < length (words (transcript segment))
      then (if candidateAccepted (words (transcript segment)) quoteWords i
            then \<lparr>found = True,
                  timestamp = max 0 (start (words (transcript segment) ! i)
                                     - startTime (metadata segment))\<rparr>
            else scanWords segment quoteWords (i + 1))
      else \<lparr>found = False, timestamp = 0\<rparr>)"
  by pat_completeness auto
termination
  by (relation "measure (\<lambda>(segment, quoteWords, i). length (words (transcript segment)) - i)") auto

declare scanWords.simps [simp del]

definition findQuoteInSegment :: "Segment \<Rightarrow> string \<Rightarrow> QuoteResult" where
  "findQuoteInSegment segment quoteStr =
     (if length (words (transcript segment)) = 0
      then (let textLower = toLowerCase (text_t (transcript segment));
                quoteLower = toLowerCase quoteStr
            in if str_includes textLower quoteLower
               then \<lparr>found = True, timestamp = 0\<rparr>
               else \<lparr>found = False, timestamp = 0\<rparr>)
      else (let quoteWords = quoteWordsOf quoteStr
            in if length quoteWords = 0
               then \<lparr>found = False, timestamp = 0\<rparr>
               else scanWords segment quoteWords 0))"

subsection \<open>findSegmentForQuote\<close>

text \<open>
  A \<^verbatim>\<open>Map<string, Segment>\<close> is an association list in insertion order:
  \<^verbatim>\<open>set\<close> is \<^const>\<open>AList.update\<close> (a key that is present keeps its place),
  \<^verbatim>\<open>get\<close> is \<^const>\<open>map_of\<close>, and \<^verbatim>\<open>values()\<close> runs through the list.
\<close>

type_synonym SegmentMap = "(string \<times> Segment) list"

fun findSegmentForQuote :: "SegmentMap \<Rightarrow> string \<Rightarrow> (Segment \<times> real) option" where
  "findSegmentForQuote [] quoteStr = None"
| "findSegmentForQuote ((key, segment) # segs) quoteStr =
     (let result = findQuoteInSegment segment quoteStr
      in if found result then Some (segment, QuoteResult.timestamp result)
         else findSegmentForQuote segs quoteStr)"

subsection \<open>The handler\<close>

text \<open>
  \<^verbatim>\<open>JSON.parse\<close> returns a value of any shape; \<open>None\<close> of type \<open>json option\<close> is
  \<^verbatim>\<open>undefined\<close>. An object is the list of its properties, the first binding of a name
  being its value.
\<close>

datatype json =
    JNull
  | JBool bool
  | JNum real
  | JStr string
  | JArr "json list"
  | JObj "(string \<times> json) list"

datatype error = TypeError

datatype 'a outcome = Throws | Returns 'a

text \<open>
  \<^verbatim>\<open>match.audioFile\<close> and \<^verbatim>\<open>match.quote\<close> on a value that is not \<^verbatim>\<open>null\<close>: a property
  of an object, \<^verbatim>\<open>undefined\<close> on a number, a boolean, a string or an array (none of
  which has a property of either name).
\<close>

fun property :: "json \<Rightarrow> string \<Rightarrow> json option" where
  "property (JObj kvs) name = map_of kvs name"
| "property v name = None"

text \<open>The string that a value is, if \<^verbatim>\<open>typeof v === "string"\<close>.\<close>

fun asString :: "json option \<Rightarrow> string option" where
  "asString (Some (JStr s)) = Some s"
| "asString v = None"

text \<open>
  \<^verbatim>\<open>manifest.sessions.forEach(session => session.segments.forEach(segment =>
  segmentMap.set(segment.audioFile, segment)))\<close>
\<close>

definition segmentMapOf :: "Manifest \<Rightarrow> SegmentMap" where
  "segmentMapOf manifest =
     fold (\<lambda>session segmentMap.
             fold (\<lambda>segment segmentMap. AList.update (Segment.audioFile segment) segment segmentMap)
                  (segments session) segmentMap)
          (sessions manifest) []"

text \<open>
  \<^verbatim>\<open>const correctMatch = findSegmentForQuote(segmentMap, match.quote); if (correctMatch)
  results.push(...)\<close>, which the loop has twice, on a quote that is a string.
\<close>

definition pushCorrectMatch :: "SegmentMap \<Rightarrow> string \<Rightarrow> SearchResult list \<Rightarrow> SearchResult list" where
  "pushCorrectMatch segmentMap quoteStr results =
     (case findSegmentForQuote segmentMap quoteStr of
        Some (segment, ts) \<Rightarrow>
          results @ [\<lparr>audioFile = Segment.audioFile segment,
                      timestamp = ts,
                      subject = SegmentMetadata.subject (metadata segment),
                      quote = quoteStr\<rparr>]
      | None \<Rightarrow> results)"

text \<open>
  The same on any value: \<^verbatim>\<open>quote.toLowerCase()\<close> throws a TypeError on a value that is
  not a string, in the first segment that \<^verbatim>\<open>findSegmentForQuote\<close> visits.
\<close>

definition searchAll :: "SegmentMap \<Rightarrow> json option \<Rightarrow> SearchResult list \<Rightarrow> error + SearchResult list" where
  "searchAll segmentMap match_quote results =
     (case asString match_quote of
        Some quoteStr \<Rightarrow> Inr (pushCorrectMatch segmentMap quoteStr results)
      | None \<Rightarrow> if segmentMap = [] then Inr results else Inl TypeError)"

text \<open>The branch \<^verbatim>\<open>if (claimedSegment)\<close> of the loop body.\<close>

definition claimedBranch ::
  "SegmentMap \<Rightarrow> string \<Rightarrow> Segment \<Rightarrow> json option \<Rightarrow> SearchResult list \<Rightarrow> error + SearchResult list" where
  "claimedBranch segmentMap match_audioFile claimedSegment match_quote results =
     (case asString match_quote of
        None \<Rightarrow> Inl TypeError
      | Some quoteStr \<Rightarrow>
          (let checkResult = findQuoteInSegment claimedSegment quoteStr
           in if found checkResult
              then Inr (results @ [\<lparr>audioFile = match_audioFile,
                                     timestamp = QuoteResult.timestamp checkResult,
                                     subject = SegmentMetadata.subject (metadata claimedSegment),
                                     quote = quoteStr\<rparr>])
              else searchAll segmentMap match_quote results))"

text \<open>
  The body of \<^verbatim>\<open>for (const match of geminiMatches)\<close>. Reading a property of
  \<^verbatim>\<open>null\<close> throws; \<^verbatim>\<open>segmentMap.get\<close> finds nothing for a key that is not a string.
\<close>

definition loopBody :: "SegmentMap \<Rightarrow> json \<Rightarrow> SearchResult list \<Rightarrow> error + SearchResult list" where
  "loopBody segmentMap match results =
     (if match = JNull then Inl TypeError
      else case asString (property match ''audioFile'') of
             None \<Rightarrow> searchAll segmentMap (property match ''quote'') results
           | Some match_audioFile \<Rightarrow>
               (case map_of segmentMap match_audioFile of
                  None \<Rightarrow> searchAll segmentMap (property match ''quote'') results
                | Some claimedSegment \<Rightarrow>
                    claimedBranch segmentMap match_audioFile claimedSegment
                      (property match ''quote'') results))"

fun resultsLoop :: "SegmentMap \<Rightarrow> json list \<Rightarrow> SearchResult list \<Rightarrow> error + SearchResult list" where
  "resultsLoop segmentMap [] results = Inr results"
| "resultsLoop segmentMap (match # rest) results =
     (case loopBody segmentMap match results of
        Inl e \<Rightarrow> Inl e
      | Inr results' \<Rightarrow> resultsLoop segmentMap rest results')"

text \<open>\<^verbatim>\<open>xs.findIndex(p)\<close>, counting from \<open>k\<close>; \<open>-1\<close> when no element satisfies \<open>p\<close>.\<close>

fun findIndex_from :: "('a \<Rightarrow> bool) \<Rightarrow> 'a list \<Rightarrow> nat \<Rightarrow> int" where
  "findIndex_from p [] k = - 1"
| "findIndex_from p (x # xs) k = (if p x then int k else findIndex_from p xs (k + 1))"

definition findIndex :: "('a \<Rightarrow> bool) \<Rightarrow> 'a list \<Rightarrow> int" where
  "findIndex p xs = findIndex_from p xs 0"

text \<open>
  The callback of \<^verbatim>\<open>findIndex\<close> for a given \<^verbatim>\<open>result\<close>:
  \<^verbatim>\<open>(r) => r.audioFile === result.audioFile && Math.abs(r.timestamp - result.timestamp) < 10\<close>
\<close>

definition duplicateOf :: "SearchResult \<Rightarrow> SearchResult \<Rightarrow> bool" where
  "duplicateOf result r \<longleftrightarrow>
     SearchResult.audioFile r = SearchResult.audioFile result \<and>
     \<bar>SearchResult.timestamp r - SearchResult.timestamp result\<bar> < 10"

text \<open>
  \<^verbatim>\<open>results.filter((result, index, self) => index === self.findIndex(...))\<close>
\<close>

definition uniqueResults :: "SearchResult list \<Rightarrow> SearchResult list" where
  "uniqueResults results =
     map snd
       (filter (\<lambda>(index, result). int index = findIndex (duplicateOf result) results)
               (enumerate 0 results))"

text \<open>The clean-up of the response text: the markdown fences are removed when present.\<close>

definition cleanResponse :: "string \<Rightarrow> string" where
  "cleanResponse responseText =
     (let trimmed = trim responseText;
          unfenced = (if startsWith trimmed ''```json'' then slice_from trimmed 7
                      else if startsWith trimmed ''```'' then slice_from trimmed 3
                      else trimmed);
          unfenced' = (if endsWith unfenced ''```'' then slice_to_last unfenced 3 else unfenced)
      in trim unfenced')"

text \<open>
  \<^verbatim>\<open>JSON.parse\<close> is a parameter, \<open>None\<close> when it throws. A value that is not an array,
  and a text that does not parse, leave \<^verbatim>\<open>geminiMatches\<close> empty.
\<close>

definition geminiMatchesOf :: "(string \<Rightarrow> json option) \<Rightarrow> string \<Rightarrow> json list" where
  "geminiMatchesOf JSON_parse cleanedResponse =
     (case JSON_parse cleanedResponse of
        None \<Rightarrow> []
      | Some (JArr matches) \<Rightarrow> matches
      | Some v \<Rightarrow> [])"

text \<open>
  Lines 240 to 292 of the handler, which the specification calls the reconciler: the
  loop from an empty \<^verbatim>\<open>results\<close>, then the removal of duplicates.
\<close>

definition reconcile :: "SegmentMap \<Rightarrow> json list \<Rightarrow> error + SearchResult list" where
  "reconcile segmentMap geminiMatches =
     (case resultsLoop segmentMap geminiMatches [] of
        Inl e \<Rightarrow> Inl e
      | Inr results \<Rightarrow> Inr (uniqueResults results))"

text \<open>\<^verbatim>\<open>response.text || "[]"\<close>: an undefined and an empty text give \<^verbatim>\<open>"[]"\<close>.\<close>

definition responseTextOf :: "string option \<Rightarrow> string" where
  "responseTextOf response_text =
     (case response_text of None \<Rightarrow> ''[]'' | Some t \<Rightarrow> if t = [] then ''[]'' else t)"

record NextApiRequest =
  req_method :: string
  question :: "json option"

datatype response = Status200 "SearchResult list" | StatusError nat string

text \<open>
  The handler. Its surroundings are arguments: the parser, the environment variable
  \<^verbatim>\<open>GEMINI_API_KEY\<close>, what \<^verbatim>\<open>getManifest()\<close> returns and what the call of the model
  returns as \<^verbatim>\<open>response.text\<close> (each may throw instead), and the request, of which
  \<open>req_method\<close> is \<^verbatim>\<open>req.method\<close> and \<open>question\<close> is \<^verbatim>\<open>req.body.question\<close>.
  Everything thrown inside \<^verbatim>\<open>try\<close> becomes the response 500.
\<close>

definition handler ::
  "(string \<Rightarrow> json option) \<Rightarrow> string option \<Rightarrow> Manifest outcome \<Rightarrow> string option outcome
     \<Rightarrow> NextApiRequest \<Rightarrow> response" where
  "handler JSON_parse apiKey getManifest generateContent req =
     (if req_method req \<noteq> ''POST''
      then StatusError 405 (''Method '' @ req_method req @ '' Not Allowed'')
      else if asString (question req) = None \<or> asString (question req) = Some []
      then StatusError 400 ''Question is required''
      else if apiKey = None \<or> apiKey = Some []
      then StatusError 500 ''GEMINI_API_KEY not configured''
      else case getManifest of
             Throws \<Rightarrow> StatusError 500 ''Failed to search transcripts''
           | Returns manifest \<Rightarrow>
               (case generateContent of
                  Throws \<Rightarrow> StatusError 500 ''Failed to search transcripts''
                | Returns response_text \<Rightarrow>
                    (let responseText = responseTextOf response_text;
                         geminiMatches = geminiMatchesOf JSON_parse (cleanResponse responseText)
                     in case reconcile (segmentMapOf manifest) geminiMatches of
                          Inl e \<Rightarrow> StatusError 500 ''Failed to search transcripts''
                        | Inr unique \<Rightarrow> Status200 unique)))"

text \<open>A value of the interface \<^verbatim>\<open>GeminiMatch\<close>, as \<^verbatim>\<open>JSON.parse\<close> returns it.\<close>

definition GeminiMatch :: "string \<Rightarrow> string \<Rightarrow> string \<Rightarrow> json" where
  "GeminiMatch match_audioFile match_quote match_subject =
     JObj [(''audioFile'', JStr match_audioFile), (''quote'', JStr match_quote),
           (''subject'', JStr match_subject)]"

section \<open>Invariants of the segment map and of the results\<close>

text \<open>Every key of the map is the \<^verbatim>\<open>audioFile\<close> of its segment, and no key occurs twice.\<close>

definition keyed :: "SegmentMap \<Rightarrow> bool" where
  "keyed m \<longleftrightarrow> distinct (map fst m) \<and> (\<forall>(k, seg)\<in>set m. Segment.audioFile seg = k)"

text \<open>
  A result is verified when the map has a segment for its \<^verbatim>\<open>audioFile\<close>, its quote is
  found in that segment, and its time stamp and subject are the ones of that segment.
\<close>

definition verified :: "SegmentMap \<Rightarrow> SearchResult \<Rightarrow> bool" where
  "verified m r \<longleftrightarrow>
     (case map_of m (SearchResult.audioFile r) of
        None \<Rightarrow> False
      | Some seg \<Rightarrow>
          found (findQuoteInSegment seg (quote r)) \<and>
          SearchResult.timestamp r = QuoteResult.timestamp (findQuoteInSegment seg (quote r)) \<and>
          SearchResult.subject r = SegmentMetadata.subject (metadata seg))"

section \<open>The look-ahead count, as the specification words it\<close>

text \<open>
  The anchor counts as one match; each \<open>j\<close> from 1 below \<open>min (length qws) 5\<close> adds one
  when there is a transcript word at \<open>i + j\<close> and it agrees with the \<open>j\<close>-th quote word:
  they are equal, or one of them contains the other.
\<close>

definition spec_matchCount :: "Word list \<Rightarrow> string list \<Rightarrow> nat \<Rightarrow> nat" where
  "spec_matchCount wds qws i =
     1 + length (filter (\<lambda>j. i + j < length wds \<and>
                            (clean (word (wds ! (i + j))) = qws ! j \<or>
                             sublist (qws ! j) (clean (word (wds ! (i + j)))) \<or>
                             sublist (clean (word (wds ! (i + j)))) (qws ! j)))
                       [1..<min (length qws) 5])"

text \<open>
  The rule for a potential match start as the specification words it: the transcript
  word equals the first quote word, or either of the two contains the other.
\<close>

definition spec_potentialStart :: "string \<Rightarrow> string \<Rightarrow> bool" where
  "spec_potentialStart cleanWord firstQuoteWord \<longleftrightarrow>
     cleanWord = firstQuoteWord \<or> sublist firstQuoteWord cleanWord \<or> sublist cleanWord firstQuoteWord"

section \<open>A small archive\<close>

definition exampleMetadata :: "string \<Rightarrow> real \<Rightarrow> SegmentMetadata" where
  "exampleMetadata subj t =
     \<lparr>SegmentMetadata.subject = subj, description = [], segmentIndex = 0, duration = 60,
      startTime = t, endTime = t + 60\<rparr>"

definition exampleWord :: "string \<Rightarrow> real \<Rightarrow> Word" where
  "exampleWord w t = \<lparr>word = w, start = t, end_w = t + 1\<rparr>"

definition exampleSegmentA :: Segment where
  "exampleSegmentA =
     \<lparr>Segment.audioFile = ''a.mp3'',
      metadata = exampleMetadata ''School'' 100,
      transcript =
        \<lparr>text_t = ''Delhi station morning Hello, world'',
         words = [exampleWord ''Delhi'' 112, exampleWord ''station'' 115,
                  exampleWord ''morning'' 125, exampleWord ''Hello,'' 130,
                  exampleWord ''world'' 131]\<rparr>\<rparr>"

definition exampleSegmentB :: Segment where
  "exampleSegmentB =
     \<lparr>Segment.audioFile = ''b.mp3'',
      metadata = exampleMetadata ''Family'' 200,
      transcript =
        \<lparr>text_t = ''He came home'',
         words = [exampleWord ''He'' 205, exampleWord ''came'' 206, exampleWord ''home'' 207]\<rparr>\<rparr>"

definition exampleSegmentC :: Segment where
  "exampleSegmentC =
     \<lparr>Segment.audioFile = ''c.mp3'',
      metadata = exampleMetadata ''Work'' 300,
      transcript = \<lparr>text_t = ''Well... yes'', words = []\<rparr>\<rparr>"

definition exampleSegmentD :: Segment where
  "exampleSegmentD =
     \<lparr>Segment.audioFile = ''d.mp3'',
      metadata = exampleMetadata ''Code'' 400,
      transcript = \<lparr>text_t = ''snake_case'', words = [exampleWord ''snake_case'' 402]\<rparr>\<rparr>"

definition exampleManifest :: Manifest where
  "exampleManifest =
     \<lparr>createdAt = ''2024-01-01'', totalSessions = 1,
      sessions = [\<lparr>sessionId = ''s1'', totalDuration = 180, totalWords = 8,
                   segments = [exampleSegmentA, exampleSegmentB, exampleSegmentC]\<rparr>]\<rparr>"




lemmas string_defs =
  toLowerCase_def toLowerCase_char_def isUpper_def isWordChar_def isSpaceChar_def
  stripNonWord_def trim_def split_ws_def clean_def quoteWordsOf_def

lemmas example_defs =
  exampleMetadata_def exampleWord_def exampleSegmentA_def exampleSegmentB_def
  exampleSegmentC_def exampleSegmentD_def exampleManifest_def

section \<open>The loops of findQuoteInSegment\<close>

lemma str_includes_sublist: "str_includes s t = sublist t s"
  by (induction s) (auto simp: sublist_Cons_right)

lemma matchCountLoop_count:
  "matchCountLoop wds qws i w j mc =
     mc + length (filter (\<lambda>j. i + j < length wds \<and>
                              (clean (word (wds ! (i + j))) = qws ! j \<or>
                               sublist (qws ! j) (clean (word (wds ! (i + j)))) \<or>
                               sublist (clean (word (wds ! (i + j)))) (qws ! j)))
                         [j..<w])"
proof (induction wds qws i w j mc rule: matchCountLoop.induct)
  case (1 wds qws i w j mc)
  show ?case
  proof (cases "j < w")
    case True
    then show ?thesis
      using "1.IH" [OF True]
      by (subst matchCountLoop.simps) (simp add: upt_conv_Cons str_includes_sublist Let_def)
  next
    case False
    then show ?thesis
      by (subst matchCountLoop.simps) simp
  qed
qed

lemma matchCountLoop_spec:
  "matchCountLoop wds qws i (min (length qws) 5) 1 1 = spec_matchCount wds qws i"
  by (simp add: matchCountLoop_count spec_matchCount_def)

lemma candidateAccepted_iff:
  "candidateAccepted wds qws i \<longleftrightarrow>
     sublist (qws ! 0) (clean (word (wds ! i))) \<and>
     real (min (length qws) 5) * 0.6 \<le> real (spec_matchCount wds qws i)"
  unfolding candidateAccepted_def Let_def matchCountLoop_spec str_includes_sublist
  by auto

lemma scanWords_find:
  "scanWords seg qws i =
     (case List.find (candidateAccepted (words (transcript seg)) qws)
                     [i..<length (words (transcript seg))] of
        None \<Rightarrow> \<lparr>found = False, timestamp = 0\<rparr>
      | Some k \<Rightarrow> \<lparr>found = True,
                    timestamp = max 0 (start (words (transcript seg) ! k)
                                       - startTime (metadata seg))\<rparr>)"
proof (induction seg qws i rule: scanWords.induct)
  case (1 seg qws i)
  show ?case
  proof (cases "i < length (words (transcript seg))")
    case True
    then show ?thesis
      using "1.IH"
      by (subst scanWords.simps) (simp add: upt_conv_Cons)
  next
    case False
    then show ?thesis
      by (subst scanWords.simps) simp
  qed
qed

lemma findQuoteInSegment_scan:
  "words (transcript seg) \<noteq> [] \<Longrightarrow> quoteWordsOf q \<noteq> [] \<Longrightarrow>
   findQuoteInSegment seg q = scanWords seg (quoteWordsOf q) 0"
  by (simp add: findQuoteInSegment_def Let_def)

lemma found_iff_accepted:
  assumes "words (transcript seg) \<noteq> []" and "quoteWordsOf q \<noteq> []"
  shows "found (findQuoteInSegment seg q) \<longleftrightarrow>
           (\<exists>i<length (words (transcript seg)).
              candidateAccepted (words (transcript seg)) (quoteWordsOf q) i)"
proof -
  let ?P = "candidateAccepted (words (transcript seg)) (quoteWordsOf q)"
  let ?n = "length (words (transcript seg))"
  show ?thesis
  proof (cases "List.find ?P [0..<?n]")
    case None
    then have "\<not> (\<exists>i<?n. ?P i)"
      by (auto simp: find_None_iff)
    with None show ?thesis
      using assms by (simp add: findQuoteInSegment_scan scanWords_find)
  next
    case (Some k)
    then have "k < ?n \<and> ?P k"
      by (auto simp: find_Some_iff)
    with Some show ?thesis
      using assms by (auto simp: findQuoteInSegment_scan scanWords_find)
  qed
qed



section \<open>Quotes without a word character\<close>




lemma spec_matchCount_single: "length qws = 1 \<Longrightarrow> spec_matchCount wds qws i = 1"
  by (simp add: spec_matchCount_def)

section \<open>The segment map and the loop over the matches\<close>

lemma findSegmentForQuote_SomeD:
  "findSegmentForQuote m q = Some (seg, ts) \<Longrightarrow>
   seg \<in> snd ` set m \<and> found (findQuoteInSegment seg q) \<and>
   ts = QuoteResult.timestamp (findQuoteInSegment seg q)"
  by (induction m) (auto simp: Let_def split: if_splits)

lemma findSegmentForQuote_None:
  "\<forall>seg\<in>snd ` set m. \<not> found (findQuoteInSegment seg q) \<Longrightarrow> findSegmentForQuote m q = None"
  by (induction m) (auto simp: Let_def)

lemma findSegmentForQuote_first:
  "k < length m \<Longrightarrow> found (findQuoteInSegment (snd (m ! k)) q) \<Longrightarrow>
   \<forall>j<k. \<not> found (findQuoteInSegment (snd (m ! j)) q) \<Longrightarrow>
   findSegmentForQuote m q =
     Some (snd (m ! k), QuoteResult.timestamp (findQuoteInSegment (snd (m ! k)) q))"
proof (induction m arbitrary: k)
  case Nil
  then show ?case by simp
next
  case (Cons p m)
  obtain key seg where p: "p = (key, seg)" by (cases p)
  show ?case
  proof (cases k)
    case 0
    with Cons.prems p show ?thesis by (simp add: Let_def)
  next
    case (Suc k')
    from Cons.prems(3) Suc have "\<not> found (findQuoteInSegment (snd ((p # m) ! 0)) q)"
      by blast
    then have nf: "\<not> found (findQuoteInSegment seg q)"
      using p by simp
    have "\<forall>j<k'. \<not> found (findQuoteInSegment (snd (m ! j)) q)"
      using Cons.prems(3) Suc by auto
    then have "findSegmentForQuote m q =
        Some (snd (m ! k'), QuoteResult.timestamp (findQuoteInSegment (snd (m ! k')) q))"
      using Cons.IH [of k'] Cons.prems(1,2) Suc by simp
    with nf p Suc show ?thesis by (simp add: Let_def)
  qed
qed

lemma set_update_subset: "set (AList.update k v m) \<subseteq> insert (k, v) (set m)"
  by (induction m) auto

lemma keyed_update:
  "keyed m \<Longrightarrow> keyed (AList.update (Segment.audioFile seg) seg m)"
  unfolding keyed_def using set_update_subset [of "Segment.audioFile seg" seg m]
  by (auto simp: distinct_update)

lemma keyed_fold_segments:
  "keyed m \<Longrightarrow>
   keyed (fold (\<lambda>segment segmentMap. AList.update (Segment.audioFile segment) segment segmentMap)
               segs m)"
  by (induction segs arbitrary: m) (simp_all add: keyed_update)

lemma keyed_fold_sessions:
  "keyed m \<Longrightarrow>
   keyed (fold (\<lambda>session segmentMap.
                  fold (\<lambda>segment segmentMap.
                          AList.update (Segment.audioFile segment) segment segmentMap)
                       (segments session) segmentMap)
               ss m)"
  by (induction ss arbitrary: m) (simp_all add: keyed_fold_segments)

lemma keyed_segmentMapOf: "keyed (segmentMapOf manifest)"
  unfolding segmentMapOf_def by (rule keyed_fold_sessions) (simp add: keyed_def)

lemma keyed_lookup:
  "keyed m \<Longrightarrow> seg \<in> snd ` set m \<Longrightarrow> map_of m (Segment.audioFile seg) = Some seg"
  unfolding keyed_def by force

lemma pushCorrectMatch_verified:
  assumes "keyed m" and "\<forall>r\<in>set rs. verified m r"
  shows "\<forall>r\<in>set (pushCorrectMatch m q rs). verified m r"
proof (cases "findSegmentForQuote m q")
  case None
  with assms(2) show ?thesis by (simp add: pushCorrectMatch_def)
next
  case (Some p)
  obtain seg ts where p: "p = (seg, ts)" by (cases p)
  from Some p have s: "seg \<in> snd ` set m" "found (findQuoteInSegment seg q)"
      "ts = QuoteResult.timestamp (findQuoteInSegment seg q)"
    using findSegmentForQuote_SomeD [of m q seg ts] by auto
  from keyed_lookup [OF assms(1) s(1)] s(2,3)
  have "verified m \<lparr>SearchResult.audioFile = Segment.audioFile seg, timestamp = ts,
                     subject = SegmentMetadata.subject (metadata seg), quote = q\<rparr>"
    by (simp add: verified_def)
  with Some p assms(2) show ?thesis
    by (simp add: pushCorrectMatch_def)
qed

lemma searchAll_verified:
  assumes "keyed m" and "\<forall>r\<in>set rs. verified m r" and "searchAll m v rs = Inr rs'"
  shows "\<forall>r\<in>set rs'. verified m r"
  using assms pushCorrectMatch_verified [OF assms(1,2)]
  by (auto simp: searchAll_def split: option.splits if_splits)

lemma claimedBranch_verified:
  assumes "keyed m" and "\<forall>r\<in>set rs. verified m r" and "map_of m af = Some seg"
    and "claimedBranch m af seg v rs = Inr rs'"
  shows "\<forall>r\<in>set rs'. verified m r"
proof (cases "asString v")
  case None
  with assms(4) show ?thesis by (simp add: claimedBranch_def)
next
  case (Some q)
  show ?thesis
  proof (cases "found (findQuoteInSegment seg q)")
    case True
    with Some assms(4) have "rs' = rs @ [\<lparr>SearchResult.audioFile = af,
        timestamp = QuoteResult.timestamp (findQuoteInSegment seg q),
        subject = SegmentMetadata.subject (metadata seg), quote = q\<rparr>]"
      by (simp add: claimedBranch_def Let_def)
    with assms(2,3) True show ?thesis
      by (simp add: verified_def)
  next
    case False
    with Some assms(4) have "searchAll m v rs = Inr rs'"
      by (simp add: claimedBranch_def Let_def)
    then show ?thesis
      using searchAll_verified [OF assms(1,2)] by blast
  qed
qed

lemma loopBody_verified:
  assumes "keyed m" and "\<forall>r\<in>set rs. verified m r" and "loopBody m x rs = Inr rs'"
  shows "\<forall>r\<in>set rs'. verified m r"
  using assms(3) searchAll_verified [OF assms(1,2)] claimedBranch_verified [OF assms(1,2)]
  by (auto simp: loopBody_def split: if_splits option.splits)

lemma resultsLoop_verified:
  "keyed m \<Longrightarrow> \<forall>r\<in>set rs. verified m r \<Longrightarrow> resultsLoop m xs rs = Inr rs' \<Longrightarrow>
   \<forall>r\<in>set rs'. verified m r"
proof (induction xs arbitrary: rs)
  case Nil
  then show ?case by simp
next
  case (Cons x xs)
  from Cons.prems(3) obtain rs1 where s: "loopBody m x rs = Inr rs1" "resultsLoop m xs rs1 = Inr rs'"
    by (auto split: sum.splits)
  from loopBody_verified [OF Cons.prems(1,2) s(1)] have "\<forall>r\<in>set rs1. verified m r" .
  then show ?case
    using Cons.IH [OF Cons.prems(1) _ s(2)] by blast
qed

lemma set_uniqueResults: "set (uniqueResults rs) \<subseteq> set rs"
proof -
  have "set (uniqueResults rs) \<subseteq> snd ` set (enumerate 0 rs)"
    by (auto simp: uniqueResults_def)
  also have "\<dots> = set (map snd (enumerate 0 rs))"
    by (simp only: set_map)
  also have "\<dots> = set rs"
    by (simp only: map_snd_enumerate)
  finally show ?thesis .
qed

section \<open>The removal of duplicates\<close>

lemma findIndex_from_takeWhile:
  "findIndex_from p xs k =
     (if \<exists>x\<in>set xs. p x then int (k + length (takeWhile (\<lambda>x. \<not> p x) xs)) else - 1)"
  by (induction xs arbitrary: k) auto

lemma length_takeWhile_eq_iff:
  assumes "i < length xs" and "\<not> P (xs ! i)"
  shows "i = length (takeWhile P xs) \<longleftrightarrow> (\<forall>k<i. P (xs ! k))"
proof
  assume e: "i = length (takeWhile P xs)"
  show "\<forall>k<i. P (xs ! k)"
  proof (intro allI impI)
    fix k assume "k < i"
    with e have "k < length (takeWhile P xs)" by simp
    then have "takeWhile P xs ! k \<in> set (takeWhile P xs)" and "takeWhile P xs ! k = xs ! k"
      by (rule nth_mem, rule takeWhile_nth)
    then show "P (xs ! k)"
      using set_takeWhileD by metis
  qed
next
  assume a: "\<forall>k<i. P (xs ! k)"
  have "takeWhile P xs = take i xs"
    using a assms by (intro takeWhile_eq_take_P_nth) auto
  with assms(1) show "i = length (takeWhile P xs)" by simp
qed

lemma duplicateOf_refl: "duplicateOf r r"
  by (simp add: duplicateOf_def)

lemma kept_iff:
  assumes "i < length rs"
  shows "int i = findIndex (duplicateOf (rs ! i)) rs \<longleftrightarrow> (\<forall>k<i. \<not> duplicateOf (rs ! i) (rs ! k))"
proof -
  have ex: "\<exists>x\<in>set rs. duplicateOf (rs ! i) x"
    using assms duplicateOf_refl nth_mem by blast
  have "int i = findIndex (duplicateOf (rs ! i)) rs \<longleftrightarrow>
        i = length (takeWhile (\<lambda>x. \<not> duplicateOf (rs ! i) x) rs)"
    using ex by (simp add: findIndex_def findIndex_from_takeWhile)
  also have "\<dots> \<longleftrightarrow> (\<forall>k<i. \<not> duplicateOf (rs ! i) (rs ! k))"
    using length_takeWhile_eq_iff [of i rs "\<lambda>x. \<not> duplicateOf (rs ! i) x"] assms duplicateOf_refl
    by simp
  finally show ?thesis .
qed

lemma enumerate_map_upt: "enumerate 0 xs = map (\<lambda>i. (i, xs ! i)) [0..<length xs]"
proof (rule nth_equalityI)
  show "length (enumerate 0 xs) = length (map (\<lambda>i. (i, xs ! i)) [0..<length xs])"
    by simp
next
  fix i assume "i < length (enumerate 0 xs)"
  then show "enumerate 0 xs ! i = map (\<lambda>i. (i, xs ! i)) [0..<length xs] ! i"
    by (simp add: nth_enumerate_eq)
qed

lemma uniqueResults_indices:
  "uniqueResults rs =
     map (nth rs) (filter (\<lambda>i. \<forall>k<i. \<not> duplicateOf (rs ! i) (rs ! k)) [0..<length rs])"
proof -
  have "uniqueResults rs =
        map (nth rs) (filter (\<lambda>i. int i = findIndex (duplicateOf (rs ! i)) rs) [0..<length rs])"
    by (simp add: uniqueResults_def enumerate_map_upt filter_map comp_def)
  also have "filter (\<lambda>i. int i = findIndex (duplicateOf (rs ! i)) rs) [0..<length rs] =
             filter (\<lambda>i. \<forall>k<i. \<not> duplicateOf (rs ! i) (rs ! k)) [0..<length rs]"
    by (rule filter_cong) (simp_all add: kept_iff)
  finally show ?thesis .
qed

lemma uniqueResults_snoc:
  "uniqueResults (rs @ [r]) =
     uniqueResults rs @ (if \<exists>r'\<in>set rs. duplicateOf r r' then [] else [r])"
proof -
  let ?n = "length rs"
  have f: "filter (\<lambda>i. \<forall>k<i. \<not> duplicateOf ((rs @ [r]) ! i) ((rs @ [r]) ! k)) [0..<?n] =
           filter (\<lambda>i. \<forall>k<i. \<not> duplicateOf (rs ! i) (rs ! k)) [0..<?n]"
    by (rule filter_cong) (simp_all add: nth_append)
  have m: "map (nth (rs @ [r])) (filter (\<lambda>i. \<forall>k<i. \<not> duplicateOf (rs ! i) (rs ! k)) [0..<?n]) =
           map (nth rs) (filter (\<lambda>i. \<forall>k<i. \<not> duplicateOf (rs ! i) (rs ! k)) [0..<?n])"
    by (rule map_cong) (simp_all add: nth_append)
  have l: "(\<forall>k<?n. \<not> duplicateOf ((rs @ [r]) ! ?n) ((rs @ [r]) ! k)) \<longleftrightarrow>
           \<not> (\<exists>r'\<in>set rs. duplicateOf r r')"
    by (simp add: nth_append all_set_conv_all_nth)
  show ?thesis
    unfolding uniqueResults_indices [of "rs @ [r]"] uniqueResults_indices [of rs]
    using f m l by (simp add: nth_append)
qed

lemma uniqueResults_keeps_file:
  "r \<in> set rs \<Longrightarrow>
   \<exists>r'\<in>set (uniqueResults rs). SearchResult.audioFile r' = SearchResult.audioFile r"
proof (induction rs arbitrary: r rule: rev_induct)
  case Nil
  then show ?case by simp
next
  case (snoc x rs)
  show ?case
  proof (cases "r \<in> set rs")
    case True
    then show ?thesis
      using snoc.IH [of r] by (auto simp: uniqueResults_snoc)
  next
    case False
    with snoc.prems have rx: "r = x" by simp
    show ?thesis
    proof (cases "\<exists>r'\<in>set rs. duplicateOf x r'")
      case True
      then obtain r' where r': "r' \<in> set rs" "duplicateOf x r'" by blast
      from snoc.IH [OF r'(1)] obtain r'' where
        "r'' \<in> set (uniqueResults rs)" "SearchResult.audioFile r'' = SearchResult.audioFile r'"
        by blast
      with r'(2) rx show ?thesis
        by (auto simp: uniqueResults_snoc duplicateOf_def)
    next
      case False
      with rx show ?thesis
        by (auto simp: uniqueResults_snoc)
    qed
  qed
qed

lemma resultsLoop_append:
  "resultsLoop m (xs @ ys) rs =
     (case resultsLoop m xs rs of Inl e \<Rightarrow> Inl e | Inr rs' \<Rightarrow> resultsLoop m ys rs')"
  by (induction xs arbitrary: rs) (auto split: sum.splits)

lemma loopBody_dropped:
  assumes "x \<noteq> JNull" and "asString (property x ''quote'') = Some q"
    and "\<forall>seg\<in>snd ` set m. \<not> found (findQuoteInSegment seg q)"
  shows "loopBody m x rs = Inr rs"
proof -
  have none: "findSegmentForQuote m q = None"
    using assms(3) by (rule findSegmentForQuote_None)
  have sa: "searchAll m (property x ''quote'') rs = Inr rs"
    using assms(2) none by (simp add: searchAll_def pushCorrectMatch_def)
  have cb: "claimedBranch m af seg (property x ''quote'') rs = Inr rs"
    if "map_of m af = Some seg" for af seg
  proof -
    from that have "seg \<in> snd ` set m"
      by (force dest: map_of_SomeD)
    with assms(3) have "\<not> found (findQuoteInSegment seg q)" by blast
    with assms(2) sa show ?thesis
      by (simp add: claimedBranch_def Let_def)
  qed
  show ?thesis
    using assms(1) sa cb by (auto simp: loopBody_def split: option.splits)
qed

section \<open>The clean-up of the response\<close>








section \<open>The reconciler and the handler\<close>

lemma loopBody_append:
  "loopBody m x rs = (case loopBody m x [] of Inl e \<Rightarrow> Inl e | Inr new \<Rightarrow> Inr (rs @ new))"
  by (auto simp: loopBody_def claimedBranch_def searchAll_def pushCorrectMatch_def Let_def
           split: option.splits)

lemma resultsLoop_contains:
  "resultsLoop m xs rs = Inr raw \<Longrightarrow>
   set rs \<subseteq> set raw \<and> (\<forall>x\<in>set xs. \<forall>new. loopBody m x [] = Inr new \<longrightarrow> set new \<subseteq> set raw)"
proof (induction xs arbitrary: rs)
  case Nil
  then show ?case by simp
next
  case (Cons x xs)
  from Cons.prems obtain rs1 where s: "loopBody m x rs = Inr rs1" "resultsLoop m xs rs1 = Inr raw"
    by (auto split: sum.splits)
  from s(1) obtain new where n: "loopBody m x [] = Inr new" "rs1 = rs @ new"
    using loopBody_append [of m x rs] by (auto split: sum.splits)
  from Cons.IH [OF s(2)] n show ?case by auto
qed

lemma reconcile_verified:
  assumes "reconcile (segmentMapOf manifest) ms = Inr rs" and "r \<in> set rs"
  shows "verified (segmentMapOf manifest) r"
proof -
  from assms(1) obtain raw where raw: "resultsLoop (segmentMapOf manifest) ms [] = Inr raw"
      "rs = uniqueResults raw"
    by (auto simp: reconcile_def split: sum.splits)
  have "\<forall>r\<in>set raw. verified (segmentMapOf manifest) r"
    using resultsLoop_verified [OF keyed_segmentMapOf _ raw(1)] by simp
  with raw(2) assms(2) set_uniqueResults [of raw] show ?thesis by blast
qed

lemma verified_iff:
  "verified m r \<longleftrightarrow>
     (\<exists>seg. map_of m (SearchResult.audioFile r) = Some seg \<and>
            found (findQuoteInSegment seg (quote r)) \<and>
            SearchResult.timestamp r = QuoteResult.timestamp (findQuoteInSegment seg (quote r)) \<and>
            SearchResult.subject r = SegmentMetadata.subject (metadata seg))"
  by (auto simp: verified_def split: option.splits)

lemma handler_Status200D:
  assumes "handler JSON_parse apiKey getManifest generateContent req = Status200 rs"
  shows "\<exists>manifest rt. getManifest = Returns manifest \<and> generateContent = Returns rt \<and>
           reconcile (segmentMapOf manifest)
             (geminiMatchesOf JSON_parse (cleanResponse (responseTextOf rt))) = Inr rs"
  using assms
  by (auto simp: handler_def Let_def split: if_splits outcome.splits sum.splits)






section \<open>Facts about the small archive\<close>

lemma exampleSegmentA_words:
  "words (transcript exampleSegmentA) =
     [exampleWord ''Delhi'' 112, exampleWord ''station'' 115, exampleWord ''morning'' 125,
      exampleWord ''Hello,'' 130, exampleWord ''world'' 131]"
  by (simp add: exampleSegmentA_def)

lemma quoteWordsOf_hello_world: "quoteWordsOf ''Hello world'' = [''hello'', ''world'']"
  by (simp add: string_defs)



lemma exampleSegmentMap:
  "segmentMapOf exampleManifest =
     [(''a.mp3'', exampleSegmentA), (''b.mp3'', exampleSegmentB), (''c.mp3'', exampleSegmentC)]"
  by (simp add: segmentMapOf_def exampleManifest_def exampleSegmentA_def exampleSegmentB_def
        exampleSegmentC_def)

lemma example_hello_world:
  "findQuoteInSegment exampleSegmentA ''Hello world'' = \<lparr>found = True, timestamp = 30\<rparr>"
  by code_simp

lemma example_came_home:
  "findQuoteInSegment exampleSegmentA ''came home'' = \<lparr>found = False, timestamp = 0\<rparr>"
  "findQuoteInSegment exampleSegmentB ''came home'' = \<lparr>found = True, timestamp = 6\<rparr>"
  by code_simp+

lemma example_nowhere:
  "findQuoteInSegment exampleSegmentA ''never said'' = \<lparr>found = False, timestamp = 0\<rparr>"
  "findQuoteInSegment exampleSegmentB ''never said'' = \<lparr>found = False, timestamp = 0\<rparr>"
  "findQuoteInSegment exampleSegmentC ''never said'' = \<lparr>found = False, timestamp = 0\<rparr>"
  by code_simp+

lemma example_reconcile_hello:
  "reconcile (segmentMapOf exampleManifest) [GeminiMatch ''b.mp3'' ''Hello world'' ''Family''] =
     Inr [\<lparr>SearchResult.audioFile = ''a.mp3'', timestamp = 30, subject = ''School'',
           quote = ''Hello world''\<rparr>]"
  by code_simp


section \<open>The claims\<close>



text \<open>
  C3, as the specification states it, fails: in the segment b.mp3 the first word is
  ``He'', which the first quote word of the one-word quote ``hello'' contains, so the
  rule of the specification makes index 0 a potential match start, and a one-word quote
  is accepted at every potential start; the code finds nothing.
\<close>

theorem potential_start_counterexample:
  "spec_potentialStart (clean (word (words (transcript exampleSegmentB) ! 0)))
                       (quoteWordsOf ''hello'' ! 0) \<and>
   length (quoteWordsOf ''hello'') = 1 \<and>
   \<not> candidateAccepted (words (transcript exampleSegmentB)) (quoteWordsOf ''hello'') 0 \<and>
   findQuoteInSegment exampleSegmentB ''hello'' = \<lparr>found = False, timestamp = 0\<rparr>"
  by (simp add: spec_potentialStart_def findQuoteInSegment_def candidateAccepted_def
        scanWords.simps example_defs string_defs)

text \<open>
  C3, amended. In a segment that has words, for a quote that has words, the index \<open>i\<close>
  is a potential match start if and only if the normalised transcript word at \<open>i\<close>
  equals the first quote word or contains it; that the quote word contains the
  transcript word does not count. So the quote is found exactly when some index has
  such a word and a look-ahead count that reaches the threshold, and a one-word quote is
  found exactly when some transcript word equals or contains it.
\<close>

theorem potential_start_contains_first_word:
  assumes "words (transcript seg) \<noteq> []" and "quoteWordsOf q \<noteq> []"
  shows "(found (findQuoteInSegment seg q) \<longleftrightarrow>
           (\<exists>i<length (words (transcript seg)).
              (clean (word (words (transcript seg) ! i)) = quoteWordsOf q ! 0 \<or>
               sublist (quoteWordsOf q ! 0) (clean (word (words (transcript seg) ! i)))) \<and>
              real (min (length (quoteWordsOf q)) 5) * 0.6
                \<le> real (matchCountLoop (words (transcript seg)) (quoteWordsOf q) i
                           (min (length (quoteWordsOf q)) 5) 1 1))) \<and>
         (length (quoteWordsOf q) = 1 \<longrightarrow>
            (found (findQuoteInSegment seg q) \<longleftrightarrow>
               (\<exists>i<length (words (transcript seg)).
                  clean (word (words (transcript seg) ! i)) = quoteWordsOf q ! 0 \<or>
                  sublist (quoteWordsOf q ! 0) (clean (word (words (transcript seg) ! i))))))"
proof -
  let ?wds = "words (transcript seg)" and ?qws = "quoteWordsOf q"
  have acc: "candidateAccepted ?wds ?qws i \<longleftrightarrow>
               (clean (word (?wds ! i)) = ?qws ! 0 \<or> sublist (?qws ! 0) (clean (word (?wds ! i)))) \<and>
               real (min (length ?qws) 5) * 0.6
                 \<le> real (matchCountLoop ?wds ?qws i (min (length ?qws) 5) 1 1)" for i
    unfolding candidateAccepted_def Let_def str_includes_sublist by simp
  have one: "candidateAccepted ?wds ?qws i \<longleftrightarrow>
               (clean (word (?wds ! i)) = ?qws ! 0 \<or> sublist (?qws ! 0) (clean (word (?wds ! i))))"
    if "length ?qws = 1" for i
    using that by (auto simp: candidateAccepted_iff spec_matchCount_single)
  show ?thesis
    unfolding found_iff_accepted [OF assms]
    using acc one by auto
qed

theorem potential_start_contains_first_word_witness:
  "words (transcript exampleSegmentA) \<noteq> [] \<and>
   quoteWordsOf ''Station!'' \<noteq> [] \<and>
   length (quoteWordsOf ''Station!'') = 1 \<and>
   clean (word (words (transcript exampleSegmentA) ! 1)) = quoteWordsOf ''Station!'' ! 0 \<and>
   found (findQuoteInSegment exampleSegmentA ''Station!'')"
proof -
  have h1: "words (transcript exampleSegmentA) \<noteq> []"
    by (simp add: exampleSegmentA_words)
  have q: "quoteWordsOf ''Station!'' = [''station'']"
    by (simp add: string_defs)
  have h2: "quoteWordsOf ''Station!'' \<noteq> []"
    by (simp add: q)
  have a: "clean (word (words (transcript exampleSegmentA) ! 1)) = quoteWordsOf ''Station!'' ! 0"
    unfolding exampleSegmentA_words q by (simp add: exampleWord_def string_defs)
  have l: "(1::nat) < length (words (transcript exampleSegmentA))"
    by (simp add: exampleSegmentA_words)
  have "found (findQuoteInSegment exampleSegmentA ''Station!'')"
    using potential_start_contains_first_word [OF h1 h2] a l q by auto
  with h1 h2 a q show ?thesis by simp
qed

text \<open>
  C4. At an index \<open>i\<close> that is a potential match start, the inner loop counts
  \<open>spec_matchCount\<close>: one for the anchor, and one for each \<open>j\<close> from 1 below
  \<open>min (length quoteWords) 5\<close> for which there is a transcript word at \<open>i + j\<close> that
  equals the \<open>j\<close>-th quote word, contains it or is contained in it. The candidate is
  accepted if and only if this count is at least 60 per cent of
  \<open>min (length quoteWords) 5\<close>, and then the quote is found.
\<close>

theorem candidate_accepted_iff_threshold:
  assumes "clean (word (words (transcript seg) ! i)) = quoteWordsOf q ! 0 \<or>
           str_includes (clean (word (words (transcript seg) ! i))) (quoteWordsOf q ! 0)"
  shows "matchCountLoop (words (transcript seg)) (quoteWordsOf q) i
           (min (length (quoteWordsOf q)) 5) 1 1
           = spec_matchCount (words (transcript seg)) (quoteWordsOf q) i \<and>
         (candidateAccepted (words (transcript seg)) (quoteWordsOf q) i \<longleftrightarrow>
            real (spec_matchCount (words (transcript seg)) (quoteWordsOf q) i)
              \<ge> 0.6 * real (min (length (quoteWordsOf q)) 5)) \<and>
         (candidateAccepted (words (transcript seg)) (quoteWordsOf q) i \<longleftrightarrow>
            5 * spec_matchCount (words (transcript seg)) (quoteWordsOf q) i
              \<ge> 3 * min (length (quoteWordsOf q)) 5) \<and>
         (i < length (words (transcript seg)) \<and> quoteWordsOf q \<noteq> [] \<and>
          real (spec_matchCount (words (transcript seg)) (quoteWordsOf q) i)
              \<ge> 0.6 * real (min (length (quoteWordsOf q)) 5)
          \<longrightarrow> found (findQuoteInSegment seg q))"
proof -
  let ?wds = "words (transcript seg)" and ?qws = "quoteWordsOf q"
  have anchor: "sublist (?qws ! 0) (clean (word (?wds ! i)))"
    using assms by (auto simp: str_includes_sublist)
  have a: "candidateAccepted ?wds ?qws i \<longleftrightarrow>
             real (spec_matchCount ?wds ?qws i) \<ge> 0.6 * real (min (length ?qws) 5)"
    using anchor by (simp add: candidateAccepted_iff mult.commute)
  have b: "real (spec_matchCount ?wds ?qws i) \<ge> 0.6 * real (min (length ?qws) 5) \<longleftrightarrow>
           5 * spec_matchCount ?wds ?qws i \<ge> 3 * min (length ?qws) 5"
  proof -
    have "real (spec_matchCount ?wds ?qws i) \<ge> 0.6 * real (min (length ?qws) 5) \<longleftrightarrow>
          real (5 * spec_matchCount ?wds ?qws i) \<ge> real (3 * min (length ?qws) 5)"
      by (simp add: mult.commute)
    then show ?thesis
      by (simp only: of_nat_le_iff)
  qed
  have c: "i < length ?wds \<and> ?qws \<noteq> [] \<and>
           real (spec_matchCount ?wds ?qws i) \<ge> 0.6 * real (min (length ?qws) 5)
           \<longrightarrow> found (findQuoteInSegment seg q)"
  proof (intro impI, elim conjE)
    assume i: "i < length ?wds" and q: "?qws \<noteq> []"
      and t: "real (spec_matchCount ?wds ?qws i) \<ge> 0.6 * real (min (length ?qws) 5)"
    from i have w: "?wds \<noteq> []" by auto
    from t a have "candidateAccepted ?wds ?qws i" by simp
    with i show "found (findQuoteInSegment seg q)"
      using found_iff_accepted [OF w q] by blast
  qed
  show ?thesis
    using matchCountLoop_spec [of ?wds ?qws i] a b c by blast
qed

theorem candidate_accepted_iff_threshold_witness:
  "(clean (word (words (transcript exampleSegmentA) ! 3)) = quoteWordsOf ''Hello world'' ! 0 \<or>
    str_includes (clean (word (words (transcript exampleSegmentA) ! 3)))
                 (quoteWordsOf ''Hello world'' ! 0)) \<and>
   3 < length (words (transcript exampleSegmentA)) \<and>
   quoteWordsOf ''Hello world'' \<noteq> [] \<and>
   spec_matchCount (words (transcript exampleSegmentA)) (quoteWordsOf ''Hello world'') 3 = 2 \<and>
   matchCountLoop (words (transcript exampleSegmentA)) (quoteWordsOf ''Hello world'') 3
     (min (length (quoteWordsOf ''Hello world'')) 5) 1 1 = 2 \<and>
   candidateAccepted (words (transcript exampleSegmentA)) (quoteWordsOf ''Hello world'') 3 \<and>
   found (findQuoteInSegment exampleSegmentA ''Hello world'')"
proof -
  have a: "clean (word (words (transcript exampleSegmentA) ! 3)) = quoteWordsOf ''Hello world'' ! 0 \<or>
           str_includes (clean (word (words (transcript exampleSegmentA) ! 3)))
                        (quoteWordsOf ''Hello world'' ! 0)"
    unfolding exampleSegmentA_words quoteWordsOf_hello_world
    by (simp add: exampleWord_def string_defs)
  have l: "3 < length (words (transcript exampleSegmentA))"
    by (simp add: exampleSegmentA_words)
  have n: "quoteWordsOf ''Hello world'' \<noteq> []"
    by (simp add: quoteWordsOf_hello_world)
  have c: "spec_matchCount (words (transcript exampleSegmentA)) (quoteWordsOf ''Hello world'') 3 = 2"
    unfolding exampleSegmentA_words quoteWordsOf_hello_world
    by (simp add: spec_matchCount_def exampleWord_def string_defs)
  have m: "min (length (quoteWordsOf ''Hello world'')) 5 = 2"
    by (simp add: quoteWordsOf_hello_world)
  show ?thesis
    using candidate_accepted_iff_threshold [OF a] a l n c m by simp
qed




text \<open>
  C1. Whatever the manifest and the list of matches, every result that the reconciler
  returns names an \<^verbatim>\<open>audioFile\<close> of the segment map, and \<open>findQuoteInSegment\<close> finds
  the quote of the result in the segment of that name; the time stamp and the subject of
  the result are the ones of that segment. The same holds of every result in a response
  200 of the handler.
\<close>

theorem emitted_matches_verified:
  "(reconcile (segmentMapOf manifest) claims = Inr rs \<and> r \<in> set rs \<longrightarrow>
      (\<exists>seg. map_of (segmentMapOf manifest) (SearchResult.audioFile r) = Some seg \<and>
             found (findQuoteInSegment seg (quote r)) \<and>
             SearchResult.timestamp r = QuoteResult.timestamp (findQuoteInSegment seg (quote r)) \<and>
             SearchResult.subject r = SegmentMetadata.subject (metadata seg))) \<and>
   (handler JSON_parse apiKey (Returns manifest) generateContent req = Status200 rs \<and> r \<in> set rs \<longrightarrow>
      (\<exists>seg. map_of (segmentMapOf manifest) (SearchResult.audioFile r) = Some seg \<and>
             found (findQuoteInSegment seg (quote r))))"
proof (intro conjI impI)
  assume "reconcile (segmentMapOf manifest) claims = Inr rs \<and> r \<in> set rs"
  then have "verified (segmentMapOf manifest) r"
    using reconcile_verified by blast
  then show "\<exists>seg. map_of (segmentMapOf manifest) (SearchResult.audioFile r) = Some seg \<and>
             found (findQuoteInSegment seg (quote r)) \<and>
             SearchResult.timestamp r = QuoteResult.timestamp (findQuoteInSegment seg (quote r)) \<and>
             SearchResult.subject r = SegmentMetadata.subject (metadata seg)"
    by (simp add: verified_iff)
next
  assume a: "handler JSON_parse apiKey (Returns manifest) generateContent req = Status200 rs \<and> r \<in> set rs"
  then obtain ms where "reconcile (segmentMapOf manifest) ms = Inr rs"
    using handler_Status200D [of JSON_parse apiKey "Returns manifest" generateContent req rs] by auto
  with a have "verified (segmentMapOf manifest) r"
    using reconcile_verified by blast
  then show "\<exists>seg. map_of (segmentMapOf manifest) (SearchResult.audioFile r) = Some seg \<and>
             found (findQuoteInSegment seg (quote r))"
    by (auto simp: verified_iff)
qed

theorem emitted_matches_verified_witness:
  "reconcile (segmentMapOf exampleManifest) [GeminiMatch ''b.mp3'' ''Hello world'' ''Family''] =
     Inr [\<lparr>SearchResult.audioFile = ''a.mp3'', timestamp = 30, subject = ''School'',
           quote = ''Hello world''\<rparr>] \<and>
   (\<exists>seg. map_of (segmentMapOf exampleManifest) ''a.mp3'' = Some seg \<and>
          found (findQuoteInSegment seg ''Hello world'') \<and>
          30 = QuoteResult.timestamp (findQuoteInSegment seg ''Hello world'') \<and>
          ''School'' = SegmentMetadata.subject (metadata seg))"
  using emitted_matches_verified
          [where manifest = exampleManifest
             and claims = "[GeminiMatch ''b.mp3'' ''Hello world'' ''Family'']"
             and rs = "[\<lparr>SearchResult.audioFile = ''a.mp3'', timestamp = 30, subject = ''School'',
                         quote = ''Hello world''\<rparr>]"
             and r = "\<lparr>SearchResult.audioFile = ''a.mp3'', timestamp = 30, subject = ''School'',
                        quote = ''Hello world''\<rparr>"]
        example_reconcile_hello
  by simp



text \<open>
  C6. Let a match have a quote, let its \<^verbatim>\<open>audioFile\<close> be no key of the segment map,
  or let the quote not be found in the segment of that key, and let \<open>k\<close> be the first
  index of the segment map, in its order, whose segment has the quote. Then the loop
  body appends one result: the \<^verbatim>\<open>audioFile\<close> and the subject of that segment, the
  time stamp found there, and the quote. After the removal of duplicates the output
  still has a result with that \<^verbatim>\<open>audioFile\<close> and that subject.
\<close>

theorem misattributed_claim_reattributed:
  assumes "x \<noteq> JNull" and "asString (property x ''quote'') = Some q"
    and "case asString (property x ''audioFile'') of
           None \<Rightarrow> True
         | Some af \<Rightarrow> (case map_of (segmentMapOf manifest) af of
                         None \<Rightarrow> True
                       | Some claimed \<Rightarrow> \<not> found (findQuoteInSegment claimed q))"
    and "k < length (segmentMapOf manifest)"
    and "found (findQuoteInSegment (snd (segmentMapOf manifest ! k)) q)"
    and "\<forall>j<k. \<not> found (findQuoteInSegment (snd (segmentMapOf manifest ! j)) q)"
  shows "loopBody (segmentMapOf manifest) x rs =
           Inr (rs @ [\<lparr>SearchResult.audioFile = Segment.audioFile (snd (segmentMapOf manifest ! k)),
                        timestamp = QuoteResult.timestamp
                                      (findQuoteInSegment (snd (segmentMapOf manifest ! k)) q),
                        subject = SegmentMetadata.subject (metadata (snd (segmentMapOf manifest ! k))),
                        quote = q\<rparr>]) \<and>
         (x \<in> set claims \<and> reconcile (segmentMapOf manifest) claims = Inr out \<longrightarrow>
            (\<exists>r\<in>set out.
               SearchResult.audioFile r = Segment.audioFile (snd (segmentMapOf manifest ! k)) \<and>
               SearchResult.subject r = SegmentMetadata.subject (metadata (snd (segmentMapOf manifest ! k)))))"
proof -
  let ?m = "segmentMapOf manifest"
  let ?seg = "snd (?m ! k)"
  let ?r = "\<lparr>SearchResult.audioFile = Segment.audioFile ?seg,
             timestamp = QuoteResult.timestamp (findQuoteInSegment ?seg q),
             subject = SegmentMetadata.subject (metadata ?seg), quote = q\<rparr>"
  have fs: "findSegmentForQuote ?m q = Some (?seg, QuoteResult.timestamp (findQuoteInSegment ?seg q))"
    using assms(4-6) by (rule findSegmentForQuote_first)
  have sa: "searchAll ?m (property x ''quote'') rs' = Inr (rs' @ [?r])" for rs'
    using assms(2) fs by (simp add: searchAll_def pushCorrectMatch_def)
  have lb: "loopBody ?m x rs' = Inr (rs' @ [?r])" for rs'
    using assms(1,2,3) sa [of rs']
    by (auto simp: loopBody_def claimedBranch_def Let_def split: option.splits)
  have post: "\<exists>r\<in>set out. SearchResult.audioFile r = Segment.audioFile ?seg \<and>
                SearchResult.subject r = SegmentMetadata.subject (metadata ?seg)"
    if x: "x \<in> set claims" and rc: "reconcile ?m claims = Inr out"
  proof -
    from rc obtain raw where raw: "resultsLoop ?m claims [] = Inr raw" "out = uniqueResults raw"
      by (auto simp: reconcile_def split: sum.splits)
    from resultsLoop_contains [OF raw(1)] x lb [of "[]"] have "?r \<in> set raw"
      by auto
    then obtain r' where r': "r' \<in> set (uniqueResults raw)"
        "SearchResult.audioFile r' = SearchResult.audioFile ?r"
      using uniqueResults_keeps_file by blast
    from r'(1) raw(2) rc have "verified ?m r'"
      using reconcile_verified by blast
    moreover have "map_of ?m (Segment.audioFile ?seg) = Some ?seg"
      using keyed_lookup [OF keyed_segmentMapOf] assms(4) by (metis image_eqI nth_mem)
    ultimately have "SearchResult.subject r' = SegmentMetadata.subject (metadata ?seg)"
      using r'(2) by (simp add: verified_def)
    with r' raw(2) show ?thesis by auto
  qed
  show ?thesis
    using lb [of rs] post by blast
qed

theorem misattributed_claim_reattributed_witness:
  "GeminiMatch ''zzz.mp3'' ''came home'' ''Travel'' \<noteq> JNull \<and>
   asString (property (GeminiMatch ''zzz.mp3'' ''came home'' ''Travel'') ''quote'') = Some ''came home'' \<and>
   asString (property (GeminiMatch ''zzz.mp3'' ''came home'' ''Travel'') ''audioFile'') = Some ''zzz.mp3'' \<and>
   map_of (segmentMapOf exampleManifest) ''zzz.mp3'' = None \<and>
   1 < length (segmentMapOf exampleManifest) \<and>
   found (findQuoteInSegment (snd (segmentMapOf exampleManifest ! 1)) ''came home'') \<and>
   \<not> found (findQuoteInSegment (snd (segmentMapOf exampleManifest ! 0)) ''came home'') \<and>
   loopBody (segmentMapOf exampleManifest) (GeminiMatch ''zzz.mp3'' ''came home'' ''Travel'') [] =
     Inr [\<lparr>SearchResult.audioFile = ''b.mp3'', timestamp = 6, subject = ''Family'',
           quote = ''came home''\<rparr>]"
proof -
  let ?x = "GeminiMatch ''zzz.mp3'' ''came home'' ''Travel''"
  let ?m = "segmentMapOf exampleManifest"
  have h1: "?x \<noteq> JNull"
    by (simp add: GeminiMatch_def)
  have h2: "asString (property ?x ''quote'') = Some ''came home''"
    by (simp add: GeminiMatch_def)
  have a: "asString (property ?x ''audioFile'') = Some ''zzz.mp3''"
    by (simp add: GeminiMatch_def)
  have n: "map_of ?m ''zzz.mp3'' = None"
    by (simp add: exampleSegmentMap)
  have h3: "case asString (property ?x ''audioFile'') of
              None \<Rightarrow> True
            | Some af \<Rightarrow> (case map_of ?m af of
                            None \<Rightarrow> True
                          | Some claimed \<Rightarrow> \<not> found (findQuoteInSegment claimed ''came home''))"
    by (simp add: a n)
  have h4: "1 < length ?m"
    by (simp add: exampleSegmentMap)
  have h5: "found (findQuoteInSegment (snd (?m ! 1)) ''came home'')"
    by (simp add: exampleSegmentMap example_came_home)
  have h6: "\<forall>j<1. \<not> found (findQuoteInSegment (snd (?m ! j)) ''came home'')"
    by (simp add: exampleSegmentMap example_came_home)
  have s: "snd (?m ! Suc 0) = exampleSegmentB"
    by (simp add: exampleSegmentMap)
  have b: "Segment.audioFile exampleSegmentB = ''b.mp3'' \<and>
           SegmentMetadata.subject (metadata exampleSegmentB) = ''Family''"
    by (simp add: example_defs)
  show ?thesis
    using misattributed_claim_reattributed [OF h1 h2 h3 h4 h5 h6, of "[]"] h1 h2 a n h4 h5 h6
    by (simp add: s b example_came_home)
qed



text \<open>
  C8. A match with a quote that \<open>findQuoteInSegment\<close> finds in no segment of the map
  leaves the results as they are and throws nothing, and the list with this match
  gives what the list without it gives, for the loop and for the reconciler.
\<close>

theorem unlocatable_claim_dropped:
  assumes "x \<noteq> JNull" and "asString (property x ''quote'') = Some q"
    and "\<forall>seg\<in>snd ` set m. \<not> found (findQuoteInSegment seg q)"
  shows "loopBody m x rs = Inr rs \<and>
         resultsLoop m (before @ x # after) rs = resultsLoop m (before @ after) rs \<and>
         reconcile m (before @ x # after) = reconcile m (before @ after)"
proof -
  have d: "loopBody m x rs' = Inr rs'" for rs'
    using assms by (rule loopBody_dropped)
  have l: "resultsLoop m (before @ x # after) rs' = resultsLoop m (before @ after) rs'" for rs'
    by (simp add: resultsLoop_append d split: sum.splits)
  show ?thesis
    using d l by (simp add: reconcile_def)
qed

theorem unlocatable_claim_dropped_witness:
  "GeminiMatch ''a.mp3'' ''never said'' ''School'' \<noteq> JNull \<and>
   asString (property (GeminiMatch ''a.mp3'' ''never said'' ''School'') ''quote'') = Some ''never said'' \<and>
   \<not> found (findQuoteInSegment exampleSegmentA ''never said'') \<and>
   \<not> found (findQuoteInSegment exampleSegmentB ''never said'') \<and>
   \<not> found (findQuoteInSegment exampleSegmentC ''never said'') \<and>
   loopBody (segmentMapOf exampleManifest) (GeminiMatch ''a.mp3'' ''never said'' ''School'') [] = Inr [] \<and>
   reconcile (segmentMapOf exampleManifest)
     ([GeminiMatch ''a.mp3'' ''Hello world'' ''School''] @
      GeminiMatch ''a.mp3'' ''never said'' ''School'' # [GeminiMatch ''b.mp3'' ''came home'' ''Family'']) =
   reconcile (segmentMapOf exampleManifest)
     ([GeminiMatch ''a.mp3'' ''Hello world'' ''School''] @ [GeminiMatch ''b.mp3'' ''came home'' ''Family''])"
proof -
  let ?x = "GeminiMatch ''a.mp3'' ''never said'' ''School''"
  let ?m = "segmentMapOf exampleManifest"
  have h1: "?x \<noteq> JNull"
    by (simp add: GeminiMatch_def)
  have h2: "asString (property ?x ''quote'') = Some ''never said''"
    by (simp add: GeminiMatch_def)
  have h3: "\<forall>seg\<in>snd ` set ?m. \<not> found (findQuoteInSegment seg ''never said'')"
    by (simp add: exampleSegmentMap example_nowhere)
  show ?thesis
    using unlocatable_claim_dropped [OF h1 h2 h3, of "[]"
            "[GeminiMatch ''a.mp3'' ''Hello world'' ''School'']"
            "[GeminiMatch ''b.mp3'' ''came home'' ''Family'']"] h1 h2
    by (simp add: example_nowhere)
qed



end
